theory Spec2Isabelle
  imports Main
begin

section \<open>Field elements\<close>

text \<open>
  The utilities of \<^verbatim>\<open>utils.ts\<close> compute on o1js \<^verbatim>\<open>Field\<close> values: elements of the
  Pallas base field, that is natural numbers below the prime \<open>ORDER\<close> with addition and
  multiplication modulo \<open>ORDER\<close>. A \<^verbatim>\<open>Field\<close> is modelled as its canonical
  representative, a \<open>nat\<close>, and every reduction is written out. Comparisons
  (\<^verbatim>\<open>lessThan\<close>, \<^verbatim>\<open>assertLessThan\<close>, ...) compare the canonical representatives,
  \<^verbatim>\<open>equals\<close> is equality, and \<^verbatim>\<open>Bool.toField()\<close> is 1 or 0.
\<close>

type_synonym Field = nat

definition ORDER :: nat where
  "ORDER = 28948022309329048855892746252171976963363056481941560715954676764349967630337"

definition Field_of :: "nat \<Rightarrow> Field" where
  \<comment> \<open>\<^verbatim>\<open>Field(n)\<close> for a JavaScript number or bigint \<open>n\<close>\<close>
  "Field_of n = n mod ORDER"

definition Field_add :: "Field \<Rightarrow> Field \<Rightarrow> Field" where
  "Field_add a b = (a + b) mod ORDER"

definition Field_mul :: "Field \<Rightarrow> Field \<Rightarrow> Field" where
  "Field_mul a b = (a * b) mod ORDER"

definition toField :: "bool \<Rightarrow> Field" where
  "toField b = (if b then 1 else 0)"

section \<open>Failures\<close>

text \<open>
  Every assertion of the source that can fail, and every exception of the runtime the
  functions can meet, is a value of \<open>error\<close>; a function that can fail returns
  \<open>error + 'a\<close> with \<open>Inl\<close> the failure.
\<close>

datatype error =
    TypeError            \<comment> \<open>a method call on a missing array element (\<^verbatim>\<open>undefined\<close>)\<close>
  | NotFourDigit         \<comment> \<open>\<^verbatim>\<open>The combination must be a four-digit Field!\<close>\<close>
  | AssertEqualsFailed   \<comment> \<open>\<^verbatim>\<open>assertEquals\<close> with no message\<close>
  | DigitIsZero nat      \<comment> \<open>\<^verbatim>\<open>Combination digit n should not be zero!\<close>\<close>
  | DigitNotUnique nat   \<comment> \<open>\<^verbatim>\<open>Combination digit n is not unique!\<close>\<close>
  | TurnCountTooLarge    \<comment> \<open>\<^verbatim>\<open>Turn count must be less than 100!\<close>\<close>
  | MaxAttemptTooLarge   \<comment> \<open>\<^verbatim>\<open>Max attempt must be less than 100!\<close>\<close>
  | SolvedFlagTooLarge   \<comment> \<open>\<^verbatim>\<open>Solved flag must be less than 2!\<close>\<close>
  | InvalidIndex         \<comment> \<open>\<^verbatim>\<open>Invalid index: Index out of bounds or multiple indices match!\<close>\<close>
  | IndexOutOfBounds     \<comment> \<open>\<^verbatim>\<open>Invalid index: Index out of bounds!\<close>\<close>
  | DoesNotFit           \<comment> \<open>\<^verbatim>\<open>Field.toBits(): value does not fit in the given number of bits\<close>\<close>
  | BitLengthTooLarge    \<comment> \<open>\<^verbatim>\<open>bit length must be 254 (255) or less\<close>\<close>

definition andThen :: "error + 'a \<Rightarrow> ('a \<Rightarrow> error + 'b) \<Rightarrow> error + 'b" where
  \<comment> \<open>sequencing: a failure of the first step is the failure of the whole\<close>
  "andThen r f = (case r of Inl e \<Rightarrow> Inl e | Inr x \<Rightarrow> f x)"

definition assertThat :: "bool \<Rightarrow> error \<Rightarrow> error + unit" where
  "assertThat b e = (if b then Inr () else Inl e)"

definition elemAt :: "'a list \<Rightarrow> nat \<Rightarrow> error + 'a" where
  \<comment> \<open>\<^verbatim>\<open>xs[i]\<close> followed by a method call: a missing element is a \<^verbatim>\<open>TypeError\<close>\<close>
  "elemAt xs i = (if i < length xs then Inr (xs ! i) else Inl TypeError)"

section \<open>Combinations\<close>

definition compressCombinationDigits :: "Field list \<Rightarrow> error + Field" where
  "compressCombinationDigits combinationDigits =
     andThen (elemAt combinationDigits 0) (\<lambda>d0.
     andThen (elemAt combinationDigits 1) (\<lambda>d1.
     andThen (elemAt combinationDigits 2) (\<lambda>d2.
     andThen (elemAt combinationDigits 3) (\<lambda>d3.
       Inr (Field_add (Field_add (Field_add (Field_mul d0 1000) (Field_mul d1 100))
                                 (Field_mul d2 10)) d3)))))"

definition separateCombinationDigits :: "Field \<Rightarrow> error + Field list" where
  "separateCombinationDigits combination =
     andThen (assertThat (1000 \<le> combination \<and> combination \<le> 9999) NotFourDigit) (\<lambda>_.
       let num = combination;
           digits = [Field_of (num div 1000), Field_of ((num div 100) mod 10),
                     Field_of ((num div 10) mod 10), Field_of (num mod 10)]
       in andThen (compressCombinationDigits digits) (\<lambda>c.
          andThen (assertThat (c = combination) AssertEqualsFailed) (\<lambda>_.
            Inr digits)))"

text \<open>
  \<^verbatim>\<open>validateCombination\<close>: the outer loop runs \<open>i = 1, 2, 3\<close>; each round first asserts
  that digit \<open>i\<close> is not zero and then, in the inner loop \<open>j = i, ..., 3\<close>, that digit
  \<open>i - 1\<close> differs from digit \<open>j\<close>. The first assertion that fails is the one raised.
\<close>

fun assertUnique :: "Field list \<Rightarrow> nat \<Rightarrow> nat list \<Rightarrow> error + unit" where
  "assertUnique ds i [] = Inr ()"
| "assertUnique ds i (j # js) =
     andThen (elemAt ds (i - 1)) (\<lambda>a.
     andThen (elemAt ds j) (\<lambda>b.
     andThen (assertThat (a \<noteq> b) (DigitNotUnique (j + 1))) (\<lambda>_.
       assertUnique ds i js)))"

fun validateDigits :: "Field list \<Rightarrow> nat list \<Rightarrow> error + unit" where
  "validateDigits ds [] = Inr ()"
| "validateDigits ds (i # idxs) =
     andThen (elemAt ds i) (\<lambda>d.
     andThen (assertThat (d \<noteq> 0) (DigitIsZero (i + 1))) (\<lambda>_.
     andThen (assertUnique ds i [i..<4]) (\<lambda>_.
       validateDigits ds idxs)))"

definition validateCombination :: "Field list \<Rightarrow> error + unit" where
  "validateCombination combinationDigits = validateDigits combinationDigits [1..<4]"

section \<open>Clues\<close>

text \<open>
  \<^verbatim>\<open>getClueFromGuess\<close>: the clue starts as four zeros; the loops run \<open>i\<close> and \<open>j\<close>
  over \<open>0, ..., 3\<close> and add to \<open>clue[i]\<close> twice the equality bit when \<open>i = j\<close> and
  the equality bit otherwise.
\<close>

fun clueInner :: "Field list \<Rightarrow> Field list \<Rightarrow> nat \<Rightarrow> nat list \<Rightarrow> Field list \<Rightarrow> error + Field list" where
  "clueInner guess solution i [] clue = Inr clue"
| "clueInner guess solution i (j # js) clue =
     andThen (elemAt guess i) (\<lambda>g.
     andThen (elemAt solution j) (\<lambda>s.
       let isEqual = toField (g = s) in
       clueInner guess solution i js
         (if i = j then clue[i := Field_add (clue ! i) (Field_mul isEqual 2)]
          else clue[i := Field_add (clue ! i) isEqual])))"

fun clueOuter :: "Field list \<Rightarrow> Field list \<Rightarrow> nat list \<Rightarrow> Field list \<Rightarrow> error + Field list" where
  "clueOuter guess solution [] clue = Inr clue"
| "clueOuter guess solution (i # idxs) clue =
     andThen (clueInner guess solution i [0..<4] clue) (\<lambda>clue'.
       clueOuter guess solution idxs clue')"

definition getClueFromGuess :: "Field list \<Rightarrow> Field list \<Rightarrow> error + Field list" where
  "getClueFromGuess guess solution = clueOuter guess solution [0..<4] (replicate 4 0)"

fun solvedLoop :: "Field list \<Rightarrow> nat list \<Rightarrow> bool \<Rightarrow> error + bool" where
  "solvedLoop clue [] isSolved = Inr isSolved"
| "solvedLoop clue (i # idxs) isSolved =
     andThen (elemAt clue i) (\<lambda>c.
       let isHit = (c = 2) in solvedLoop clue idxs (isSolved \<and> isHit))"

definition checkIfSolved :: "Field list \<Rightarrow> error + bool" where
  "checkIfSolved clue = solvedLoop clue [0..<4] True"

section \<open>The turn word\<close>

definition compressTurnCountMaxAttemptSolved :: "Field list \<Rightarrow> error + Field" where
  "compressTurnCountMaxAttemptSolved digits =
     andThen (elemAt digits 0) (\<lambda>d0.
     andThen (assertThat (d0 < 100) TurnCountTooLarge) (\<lambda>_.
     andThen (elemAt digits 1) (\<lambda>d1.
     andThen (assertThat (d1 < 100) MaxAttemptTooLarge) (\<lambda>_.
     andThen (elemAt digits 2) (\<lambda>d2.
     andThen (assertThat (d2 < 2) SolvedFlagTooLarge) (\<lambda>_.
       Inr (Field_add (Field_mul d0 10000) (Field_add (Field_mul d1 100) d2))))))))"

definition separateTurnCountAndMaxAttemptSolved :: "Field \<Rightarrow> error + Field list" where
  "separateTurnCountAndMaxAttemptSolved v =
     (let num = v;
          digits = [Field_of (num div 10000), Field_of ((num div 100) mod 100),
                    Field_of (num mod 100)]
      in andThen (compressTurnCountMaxAttemptSolved digits) (\<lambda>c.
         andThen (assertThat (c = v) AssertEqualsFailed) (\<lambda>_.
           Inr digits)))"

section \<open>Bits\<close>

text \<open>
  \<^verbatim>\<open>Field.toBits(n)\<close> and \<^verbatim>\<open>Field.fromBits(bits)\<close> are primitives of the o1js library,
  which is not part of this repository; they are modelled as the library documents them.
  \<^verbatim>\<open>toBits(n)\<close> returns the little-endian binary representation of the element (least
  significant bit first) in exactly \<open>n\<close> bits; it refuses \<open>n > 254\<close> and an element that
  does not fit in \<open>n\<close> bits. \<^verbatim>\<open>fromBits\<close> reads a little-endian bit array of at most
  255 bits as a field element.
\<close>

fun bitsOf :: "nat \<Rightarrow> nat \<Rightarrow> bool list" where
  "bitsOf 0 x = []"
| "bitsOf (Suc n) x = odd x # bitsOf n (x div 2)"

fun valueOf :: "bool list \<Rightarrow> nat" where
  "valueOf [] = 0"
| "valueOf (b # bs) = (if b then 1 else 0) + 2 * valueOf bs"

definition toBits :: "Field \<Rightarrow> nat \<Rightarrow> error + bool list" where
  "toBits x len =
     (if 254 < len then Inl BitLengthTooLarge
      else if 2 ^ len \<le> x then Inl DoesNotFit
      else Inr (bitsOf len x))"

definition fromBits :: "bool list \<Rightarrow> error + Field" where
  "fromBits bits =
     (if 255 < length bits then Inl BitLengthTooLarge
      else Inr (valueOf bits mod ORDER))"

fun toBitsAll :: "Field list \<Rightarrow> nat \<Rightarrow> error + bool list list" where
  \<comment> \<open>\<^verbatim>\<open>fields.map((c) => c.toBits(range))\<close>\<close>
  "toBitsAll [] rng = Inr []"
| "toBitsAll (c # cs) rng =
     andThen (toBits c rng) (\<lambda>b.
     andThen (toBitsAll cs rng) (\<lambda>bs.
       Inr (b # bs)))"

fun fromBitsAll :: "bool list list \<Rightarrow> error + Field list" where
  \<comment> \<open>\<^verbatim>\<open>unpackedBits.map((bits) => Field.fromBits(bits))\<close>\<close>
  "fromBitsAll [] = Inr []"
| "fromBitsAll (b # bs) =
     andThen (fromBits b) (\<lambda>f.
     andThen (fromBitsAll bs) (\<lambda>fs.
       Inr (f # fs)))"

definition slice :: "'a list \<Rightarrow> nat \<Rightarrow> nat \<Rightarrow> 'a list" where
  \<comment> \<open>\<^verbatim>\<open>xs.slice(a, b)\<close> for non-negative \<open>a\<close> and \<open>b\<close>: clamped to the array\<close>
  "slice xs a b = take (b - a) (drop a xs)"

section \<open>Serialized clues\<close>

definition serializeClue :: "Field list \<Rightarrow> error + Field" where
  "serializeClue clue =
     andThen (toBitsAll clue 2) (\<lambda>clueBits.
       fromBits (concat clueBits))"

definition deserializeClue :: "Field \<Rightarrow> error + Field list" where
  "deserializeClue serializedClue =
     andThen (toBits serializedClue 8) (\<lambda>bits.
     andThen (fromBits (slice bits 0 2)) (\<lambda>clueA.
     andThen (fromBits (slice bits 2 4)) (\<lambda>clueB.
     andThen (fromBits (slice bits 4 6)) (\<lambda>clueC.
     andThen (fromBits (slice bits 6 8)) (\<lambda>clueD.
       Inr [clueA, clueB, clueC, clueD])))))"

section \<open>Packed histories\<close>

definition MAX_ATTEMPTS :: nat where
  "MAX_ATTEMPTS = 7"

definition serialize :: "Field list \<Rightarrow> nat \<Rightarrow> error + Field" where
  "serialize fields rng =
     andThen (toBitsAll fields rng) (\<lambda>bits.
       fromBits (concat bits))"

text \<open>
  The loop of \<^verbatim>\<open>deserialize\<close> advances \<open>i\<close> by \<open>chunkSize\<close> until it reaches the number
  of bits; with \<open>chunkSize = 0\<close> and at least one bit it never ends. Not returning is
  the value \<open>None\<close>.
\<close>

partial_function (option) sliceLoop :: "bool list \<Rightarrow> nat \<Rightarrow> nat \<Rightarrow> bool list list \<Rightarrow> bool list list option" where
  "sliceLoop packedBits chunkSize i unpackedBits =
     (if i < length packedBits
      then sliceLoop packedBits chunkSize (i + chunkSize)
             (unpackedBits @ [slice packedBits i (i + chunkSize)])
      else Some unpackedBits)"

definition deserialize :: "Field \<Rightarrow> nat \<Rightarrow> nat \<Rightarrow> (error + Field list) option" where
  "deserialize serializedField sz chunkSize =
     (case toBits serializedField sz of
        Inl e \<Rightarrow> Some (Inl e)
      | Inr packedBits \<Rightarrow>
          map_option fromBitsAll (sliceLoop packedBits chunkSize 0 []))"

definition serializeClueHistory :: "Field list \<Rightarrow> error + Field" where
  "serializeClueHistory clues = serialize clues 8"

definition deserializeClueHistory :: "Field \<Rightarrow> (error + Field list) option" where
  \<comment> \<open>120 bits total, each clue is 8 bits\<close>
  "deserializeClueHistory serializedClueHistory = deserialize serializedClueHistory 120 8"

definition serializeCombinationHistory :: "Field list \<Rightarrow> error + Field" where
  "serializeCombinationHistory combinations = serialize combinations 14"

definition deserializeCombinationHistory :: "Field \<Rightarrow> (error + Field list) option" where
  \<comment> \<open>210 bits total, each combination is 14 bits\<close>
  "deserializeCombinationHistory serializedCombinationHistory =
     deserialize serializedCombinationHistory 210 14"

section \<open>Indexed read and write\<close>

text \<open>
  Both functions scan every slot \<open>i = 0, ..., length - 1\<close> and compare the index, a
  \<^verbatim>\<open>Field\<close>, with \<^verbatim>\<open>Field(i)\<close>. In \<^verbatim>\<open>updateElementAtIndex\<close> the assignment
  \<^verbatim>\<open>updatedFieldArray[i] = ...\<close> always writes one past the last element of the array
  built so far, which appends.
\<close>

fun getLoop :: "Field list \<Rightarrow> Field \<Rightarrow> nat list \<Rightarrow> Field \<times> Field \<Rightarrow> Field \<times> Field" where
  "getLoop fieldArray index [] (totalIndexMatch, selectedValue) =
     (totalIndexMatch, selectedValue)"
| "getLoop fieldArray index (i # idxs) (totalIndexMatch, selectedValue) =
     (let isMatch = toField (index = Field_of i);
          matchingValue = Field_mul isMatch (fieldArray ! i)
      in getLoop fieldArray index idxs
           (Field_add totalIndexMatch isMatch, Field_add selectedValue matchingValue))"

definition getElementAtIndex :: "Field list \<Rightarrow> Field \<Rightarrow> error + Field" where
  "getElementAtIndex fieldArray index =
     (let (totalIndexMatch, selectedValue) =
            getLoop fieldArray index [0..<length fieldArray] (0, 0)
      in andThen (assertThat (totalIndexMatch = 1) InvalidIndex) (\<lambda>_.
           Inr selectedValue))"

fun updateLoop :: "Field \<Rightarrow> Field list \<Rightarrow> Field \<Rightarrow> nat list \<Rightarrow> Field list \<Rightarrow> Field list" where
  "updateLoop newValue fieldArray index [] updatedFieldArray = updatedFieldArray"
| "updateLoop newValue fieldArray index (i # idxs) updatedFieldArray =
     updateLoop newValue fieldArray index idxs
       (updatedFieldArray @ [if index = Field_of i then newValue else fieldArray ! i])"

definition updateElementAtIndex :: "Field \<Rightarrow> Field list \<Rightarrow> Field \<Rightarrow> error + Field list" where
  "updateElementAtIndex newValue fieldArray index =
     andThen (assertThat (index < Field_of (length fieldArray)) IndexOutOfBounds) (\<lambda>_.
       Inr (updateLoop newValue fieldArray index [0..<length fieldArray] []))"

section \<open>Auxiliary facts\<close>

lemma andThen_simps [simp]:
  "andThen (Inl e) f = Inl e"
  "andThen (Inr x) f = f x"
  by (simp_all add: andThen_def)

lemma assertThat_simps [simp]:
  "assertThat True e = Inr ()"
  "assertThat False e = Inl e"
  by (simp_all add: assertThat_def)

lemma elemAt4 [simp]:
  "elemAt [a, b, c, d] 0 = Inr a"
  "elemAt [a, b, c, d] (Suc 0) = Inr b"
  "elemAt [a, b, c, d] 1 = Inr b"
  "elemAt [a, b, c, d] 2 = Inr c"
  "elemAt [a, b, c, d] 3 = Inr d"
  by (simp_all add: elemAt_def)

lemma elemAt3 [simp]:
  "elemAt [a, b, c] 0 = Inr a"
  "elemAt [a, b, c] (Suc 0) = Inr b"
  "elemAt [a, b, c] 1 = Inr b"
  "elemAt [a, b, c] 2 = Inr c"
  by (simp_all add: elemAt_def)

lemma upt4:
  "[0..<4] = [0, 1, 2, 3]"
  "[1..<4] = [1, 2, 3]"
  "[Suc 0..<4] = [1, 2, 3]"
  "[2..<4] = [2, 3]"
  "[3..<4] = [3]"
  by (simp_all add: upt_conv_Cons)

lemma replicate4: "replicate 4 x = [x, x, x, x]"
  by (simp add: numeral_eq_Suc)

lemma length4: "length xs = 4 \<Longrightarrow> \<exists>a b c d. xs = [a, b, c, d]"
  by (auto simp: length_Suc_conv numeral_eq_Suc)

lemma all4: "(\<forall>i<4. P ([a, b, c, d] ! i)) \<longleftrightarrow> P a \<and> P b \<and> P c \<and> P d"
proof -
  have "{i::nat. i < 4} = {0, 1, 2, 3}" by auto
  then have "(\<forall>i<4. P ([a, b, c, d] ! i)) \<longleftrightarrow> (\<forall>i\<in>{0, 1, 2, 3::nat}. P ([a, b, c, d] ! i))"
    by blast
  then show ?thesis by simp
qed

lemma small_field:
  "x < ORDER \<Longrightarrow> Field_of x = x"
  "a + b < ORDER \<Longrightarrow> Field_add a b = a + b"
  "a * b < ORDER \<Longrightarrow> Field_mul a b = a * b"
  by (simp_all add: Field_of_def Field_add_def Field_mul_def)

lemma div_mod_step:
  fixes r q b :: nat
  assumes "r < b"
  shows "(r + b * q) div b = q" and "(r + b * q) mod b = r"
  using assms by simp_all

lemma sum_others:
  fixes f :: "nat \<Rightarrow> nat"
  shows "(\<Sum>j\<in>{0..<4} - {0}. f j) = f 1 + f 2 + f 3"
    and "(\<Sum>j\<in>{0..<4} - {1}. f j) = f 0 + f 2 + f 3"
    and "(\<Sum>j\<in>{0..<4} - {2}. f j) = f 0 + f 1 + f 3"
    and "(\<Sum>j\<in>{0..<4} - {3}. f j) = f 0 + f 1 + f 2"
proof -
  have "{0..<4} - {0::nat} = {1, 2, 3}" "{0..<4} - {1::nat} = {0, 2, 3}"
       "{0..<4} - {2::nat} = {0, 1, 3}" "{0..<4} - {3::nat} = {0, 1, 2}"
    by auto
  then show "(\<Sum>j\<in>{0..<4} - {0}. f j) = f 1 + f 2 + f 3"
    and "(\<Sum>j\<in>{0..<4} - {1}. f j) = f 0 + f 2 + f 3"
    and "(\<Sum>j\<in>{0..<4} - {2}. f j) = f 0 + f 1 + f 3"
    and "(\<Sum>j\<in>{0..<4} - {3}. f j) = f 0 + f 1 + f 2"
    by simp_all
qed

section \<open>The clue of a guess\<close>

text \<open>
  One row of the clue is a chain of four field additions starting at zero; the sum is
  at most 5, so no reduction modulo \<open>ORDER\<close> takes place.
\<close>

lemma Field_chain:
  "Field_add (Field_add (Field_add (Field_add 0 (Field_mul (toField a) 2)) (toField b))
     (toField c)) (toField d) = 2 * toField a + toField b + toField c + toField d"
  "Field_add (Field_add (Field_add (Field_add 0 (toField a)) (Field_mul (toField b) 2))
     (toField c)) (toField d) = toField a + 2 * toField b + toField c + toField d"
  "Field_add (Field_add (Field_add (Field_add 0 (toField a)) (toField b))
     (Field_mul (toField c) 2)) (toField d) = toField a + toField b + 2 * toField c + toField d"
  "Field_add (Field_add (Field_add (Field_add 0 (toField a)) (toField b)) (toField c))
     (Field_mul (toField d) 2) = toField a + toField b + toField c + 2 * toField d"
  by (cases a; cases b; cases c; cases d;
      simp add: Field_add_def Field_mul_def toField_def ORDER_def)+

lemma getClueFromGuess_rows:
  "getClueFromGuess [g0, g1, g2, g3] [s0, s1, s2, s3] = Inr
    [2 * toField (g0 = s0) + toField (g0 = s1) + toField (g0 = s2) + toField (g0 = s3),
     toField (g1 = s0) + 2 * toField (g1 = s1) + toField (g1 = s2) + toField (g1 = s3),
     toField (g2 = s0) + toField (g2 = s1) + 2 * toField (g2 = s2) + toField (g2 = s3),
     toField (g3 = s0) + toField (g3 = s1) + toField (g3 = s2) + 2 * toField (g3 = s3)]"
  by (simp add: getClueFromGuess_def upt4 replicate4 Field_chain)

text \<open>
  Claim C1. For every guess and every solution of 4 digits, \<^verbatim>\<open>getClueFromGuess\<close>
  returns the clue whose entry at each position \<open>i\<close> is twice the equality bit of
  \<open>guess[i]\<close> and \<open>solution[i]\<close> plus the number of positions \<open>j \<noteq> i\<close> with
  \<open>guess[i] = solution[j]\<close>: a guess digit collects one blow credit for every
  non-aligned solution position it matches.
\<close>

theorem getClueFromGuess_formula:
  assumes "length guess = 4" and "length solution = 4"
  shows "getClueFromGuess guess solution = Inr (map (\<lambda>i.
      2 * (if guess ! i = solution ! i then 1 else 0)
       + (\<Sum>j\<in>{0..<4} - {i}. if guess ! i = solution ! j then 1 else 0)) [0..<4])"
proof -
  obtain g0 g1 g2 g3 where g: "guess = [g0, g1, g2, g3]"
    using length4[OF assms(1)] by blast
  obtain s0 s1 s2 s3 where s: "solution = [s0, s1, s2, s3]"
    using length4[OF assms(2)] by blast
  show ?thesis unfolding g s getClueFromGuess_rows
    by (simp add: upt4 sum_others toField_def del: One_nat_def)
qed

text \<open>
  The guess digit 2 at position 1 meets the solution \<open>[2, 2, 2, 5]\<close> at its own position
  and at two others: its score is \<open>2 + 1 + 1 = 4\<close>.
\<close>

theorem getClueFromGuess_formula_witness:
  "length [1, 2, 3, 4 :: nat] = 4 \<and> length [2, 2, 2, 5 :: nat] = 4 \<and>
   getClueFromGuess [1, 2, 3, 4] [2, 2, 2, 5] = Inr [0, 4, 0, 0]"
  using getClueFromGuess_formula[of "[1, 2, 3, 4]" "[2, 2, 2, 5]"]
  by (simp add: upt4 sum_others del: One_nat_def)

text \<open>
  Claim C9. For every clue of 4 scores, \<^verbatim>\<open>checkIfSolved\<close> returns true if and only if
  all four positions of the clue equal 2.
\<close>

theorem checkIfSolved_iff_all_hits:
  assumes "length clue = 4"
  shows "checkIfSolved clue = Inr (\<forall>i<4. clue ! i = 2)"
proof -
  obtain a b c d where c: "clue = [a, b, c, d]"
    using length4[OF assms] by blast
  show ?thesis unfolding c
    using all4[of "\<lambda>x. x = 2" a b c d] by (simp add: checkIfSolved_def upt4)
qed

theorem checkIfSolved_iff_all_hits_witness:
  "length [2, 2, 2, 2 :: nat] = 4 \<and> checkIfSolved [2, 2, 2, 2] = Inr True \<and>
   length [2, 2, 1, 2 :: nat] = 4 \<and> checkIfSolved [2, 2, 1, 2] = Inr False"
  using checkIfSolved_iff_all_hits[of "[2, 2, 2, 2]"] checkIfSolved_iff_all_hits[of "[2, 2, 1, 2]"]
        all4[of "\<lambda>x::nat. x = 2" 2 2 2 2] all4[of "\<lambda>x::nat. x = 2" 2 2 1 2]
  by (simp del: One_nat_def)

section \<open>The combination codec\<close>

lemma compressCombinationDigits_chain:
  "compressCombinationDigits [d0, d1, d2, d3] =
     Inr (Field_add (Field_add (Field_add (Field_mul d0 1000) (Field_mul d1 100))
            (Field_mul d2 10)) d3)"
  by (simp add: compressCombinationDigits_def)

lemma compressCombinationDigits_small:
  assumes "d0 \<le> 99" "d1 \<le> 99" "d2 \<le> 99" "d3 \<le> 99"
  shows "compressCombinationDigits [d0, d1, d2, d3] = Inr (d0 * 1000 + d1 * 100 + d2 * 10 + d3)"
proof -
  have "d0 * 1000 + d1 * 100 + d2 * 10 + d3 < 1000000" using assms by linarith
  moreover have "(1000000::nat) < ORDER" by (simp add: ORDER_def)
  ultimately have b: "d0 * 1000 + d1 * 100 + d2 * 10 + d3 < ORDER" by linarith
  then have "d0 * 1000 < ORDER" "d1 * 100 < ORDER" "d2 * 10 < ORDER"
    "d0 * 1000 + d1 * 100 < ORDER" "d0 * 1000 + d1 * 100 + d2 * 10 < ORDER" by linarith+
  with b show ?thesis by (simp add: compressCombinationDigits_chain small_field)
qed

lemma decimal_digits_sum:
  fixes v :: nat
  shows "(v div 1000) * 1000 + ((v div 100) mod 10) * 100 + ((v div 10) mod 10) * 10 + v mod 10 = v"
proof -
  have "v mod 100 = 10 * (v div 10 mod 10) + v mod 10"
    using mod_mult2_eq[of v 10 10] by simp
  moreover have "v mod 1000 = 100 * (v div 100 mod 10) + v mod 100"
    using mod_mult2_eq[of v 100 10] by simp
  moreover have "v = 1000 * (v div 1000) + v mod 1000"
    by simp
  ultimately show ?thesis by linarith
qed

lemma separateCombinationDigits_digits:
  assumes "1000 \<le> v" "v \<le> 9999"
  shows "separateCombinationDigits v =
           Inr [v div 1000, (v div 100) mod 10, (v div 10) mod 10, v mod 10]"
proof -
  have o: "(10000::nat) < ORDER" by (simp add: ORDER_def)
  have f: "Field_of (v div 1000) = v div 1000"
    "Field_of ((v div 100) mod 10) = (v div 100) mod 10"
    "Field_of ((v div 10) mod 10) = (v div 10) mod 10" "Field_of (v mod 10) = v mod 10"
    using assms o by (simp_all add: small_field)
  have c: "compressCombinationDigits [v div 1000, (v div 100) mod 10, (v div 10) mod 10, v mod 10]
     = Inr ((v div 1000) * 1000 + ((v div 100) mod 10) * 100 + ((v div 10) mod 10) * 10 + v mod 10)"
    using assms by (intro compressCombinationDigits_small) simp_all
  show ?thesis
    using assms by (simp add: separateCombinationDigits_def f c decimal_digits_sum Let_def)
qed

lemma separateCombinationDigits_range:
  assumes "separateCombinationDigits v = Inr ds"
  shows "1000 \<le> v \<and> v \<le> 9999"
proof (rule ccontr)
  assume "\<not> (1000 \<le> v \<and> v \<le> 9999)"
  then have "assertThat (1000 \<le> v \<and> v \<le> 9999) NotFourDigit = Inl NotFourDigit"
    unfolding assertThat_def by (rule if_not_P)
  then have "separateCombinationDigits v = Inl NotFourDigit"
    by (simp add: separateCombinationDigits_def)
  with assms show False by simp
qed

lemma digits_of_decimal:
  fixes d0 d1 d2 d3 :: nat
  assumes "d1 \<le> 9" "d2 \<le> 9" "d3 \<le> 9"
  defines "n \<equiv> d0 * 1000 + d1 * 100 + d2 * 10 + d3"
  shows "n div 1000 = d0" "(n div 100) mod 10 = d1" "(n div 10) mod 10 = d2" "n mod 10 = d3"
proof -
  have a: "n = d3 + 10 * (d2 + 10 * (d1 + 10 * d0))" by (simp add: n_def)
  have d3: "d3 < 10" and d2: "d2 < 10" and d1: "d1 < 10" using assms by simp_all
  show "n mod 10 = d3" unfolding a by (rule div_mod_step(2)[OF d3])
  have b: "n div 10 = d2 + 10 * (d1 + 10 * d0)" unfolding a by (rule div_mod_step(1)[OF d3])
  show "(n div 10) mod 10 = d2" unfolding b by (rule div_mod_step(2)[OF d2])
  have "n div 100 = (n div 10) div 10" using div_mult2_eq[of n 10 10] by simp
  then have c: "n div 100 = d1 + 10 * d0" unfolding b using div_mod_step(1)[OF d2] by simp
  show "(n div 100) mod 10 = d1" unfolding c by (rule div_mod_step(2)[OF d1])
  have "n div 1000 = (n div 100) div 10" using div_mult2_eq[of n 100 10] by simp
  then show "n div 1000 = d0" unfolding c using div_mod_step(1)[OF d1] by simp
qed

text \<open>
  The assertions of \<^verbatim>\<open>validateCombination\<close> in the order the loops reach them.
\<close>

lemma validateCombination_order:
  "validateCombination [d0, d1, d2, d3] =
     (if d1 = 0 then Inl (DigitIsZero 2)
      else if d0 = d1 then Inl (DigitNotUnique 2)
      else if d0 = d2 then Inl (DigitNotUnique 3)
      else if d0 = d3 then Inl (DigitNotUnique 4)
      else if d2 = 0 then Inl (DigitIsZero 3)
      else if d1 = d2 then Inl (DigitNotUnique 3)
      else if d1 = d3 then Inl (DigitNotUnique 4)
      else if d3 = 0 then Inl (DigitIsZero 4)
      else if d2 = d3 then Inl (DigitNotUnique 4)
      else Inr ())"
  by (simp add: validateCombination_def upt4)

text \<open>
  Claim C5. The combination encoding round-trips in both directions: a combination of
  four decimal digits that forms a number in \<open>[1000, 9999]\<close> is recovered by
  \<^verbatim>\<open>separateCombinationDigits\<close> from its \<^verbatim>\<open>compressCombinationDigits\<close> value, and every
  \<open>v\<close> in \<open>[1000, 9999]\<close> is the \<^verbatim>\<open>compressCombinationDigits\<close> value of its separated
  digits. (The lower bound 1 of the claim on the last three digits is not needed.)
\<close>

theorem combination_round_trip:
  "(d0 \<le> 9 \<and> d1 \<le> 9 \<and> d2 \<le> 9 \<and> d3 \<le> 9 \<and> 1000 \<le> d0 * 1000 + d1 * 100 + d2 * 10 + d3
      \<longrightarrow> andThen (compressCombinationDigits [d0, d1, d2, d3]) separateCombinationDigits
            = Inr [d0, d1, d2, d3])
   \<and> (1000 \<le> v \<and> v \<le> 9999
      \<longrightarrow> andThen (separateCombinationDigits v) compressCombinationDigits = Inr v)"
proof (intro conjI impI)
  assume h: "d0 \<le> 9 \<and> d1 \<le> 9 \<and> d2 \<le> 9 \<and> d3 \<le> 9
             \<and> 1000 \<le> d0 * 1000 + d1 * 100 + d2 * 10 + d3"
  let ?n = "d0 * 1000 + d1 * 100 + d2 * 10 + d3"
  have c: "compressCombinationDigits [d0, d1, d2, d3] = Inr ?n"
    using h by (intro compressCombinationDigits_small) simp_all
  have "?n \<le> 9999" using h by linarith
  then have "separateCombinationDigits ?n = Inr [d0, d1, d2, d3]"
    using h separateCombinationDigits_digits[of ?n] digits_of_decimal[of d1 d2 d3 d0] by simp
  then show "andThen (compressCombinationDigits [d0, d1, d2, d3]) separateCombinationDigits
            = Inr [d0, d1, d2, d3]" by (simp add: c)
next
  assume "1000 \<le> v \<and> v \<le> 9999"
  then have h: "1000 \<le> v" "v \<le> 9999" by simp_all
  have "compressCombinationDigits [v div 1000, (v div 100) mod 10, (v div 10) mod 10, v mod 10]
     = Inr ((v div 1000) * 1000 + ((v div 100) mod 10) * 100 + ((v div 10) mod 10) * 10 + v mod 10)"
    using h by (intro compressCombinationDigits_small) simp_all
  then show "andThen (separateCombinationDigits v) compressCombinationDigits = Inr v"
    using h separateCombinationDigits_digits[of v] by (simp add: decimal_digits_sum)
qed

theorem combination_round_trip_witness:
  "andThen (compressCombinationDigits [1, 2, 0, 9]) separateCombinationDigits = Inr [1, 2, 0, 9]
   \<and> andThen (separateCombinationDigits 9876) compressCombinationDigits = Inr 9876"
proof -
  have "(1::nat) \<le> 9 \<and> (2::nat) \<le> 9 \<and> (0::nat) \<le> 9 \<and> (9::nat) \<le> 9
        \<and> (1000::nat) \<le> 1 * 1000 + 2 * 100 + 0 * 10 + 9"
    by simp
  moreover have "(1000::nat) \<le> 9876 \<and> (9876::nat) \<le> 9999" by simp
  ultimately show ?thesis using combination_round_trip[of 1 2 0 9 9876] by blast
qed

text \<open>
  Claim C3, as the code has it. \<^verbatim>\<open>separateCombinationDigits\<close> recovers decimal digits
  and \<^verbatim>\<open>validateCombination\<close> checks zeros and duplicates only, so a combination that
  passes both consists of exactly 4 digits each in the range \<open>[0, 9]\<close>: the digits 8 and 9
  are accepted.
\<close>

theorem validated_digits_at_most_9:
  assumes "separateCombinationDigits v = Inr ds" and "validateCombination ds = Inr ()"
  shows "length ds = 4 \<and> (\<forall>i<4. ds ! i \<le> 9)"
proof -
  have r: "1000 \<le> v" "v \<le> 9999"
    using separateCombinationDigits_range[OF assms(1)] by simp_all
  have ds: "ds = [v div 1000, (v div 100) mod 10, (v div 10) mod 10, v mod 10]"
    using assms(1) separateCombinationDigits_digits[OF r] by simp
  have "v div 1000 \<le> 9" using r by simp
  moreover have "(v div 100) mod 10 \<le> 9" "(v div 10) mod 10 \<le> 9" "v mod 10 \<le> 9"
    by simp_all
  ultimately show ?thesis unfolding ds
    using all4[of "\<lambda>x. x \<le> 9" "v div 1000" "(v div 100) mod 10" "(v div 10) mod 10" "v mod 10"]
    by simp
qed

theorem validated_digits_at_most_9_witness:
  "separateCombinationDigits 1289 = Inr [1, 2, 8, 9] \<and> validateCombination [1, 2, 8, 9] = Inr ()
   \<and> length [1, 2, 8, 9 :: nat] = 4 \<and> [1, 2, 8, 9 :: nat] ! 3 \<le> 9"
  using validated_digits_at_most_9[of 1289 "[1, 2, 8, 9]"] separateCombinationDigits_digits[of 1289]
  by (simp add: validateCombination_order)

text \<open>
  The claim as stated fails at the encoded value 1289: it decodes to \<open>[1, 2, 8, 9]\<close>,
  which passes the validation although its third digit is 8.
\<close>

theorem validated_digit_above_7:
  "separateCombinationDigits 1289 = Inr [1, 2, 8, 9] \<and> validateCombination [1, 2, 8, 9] = Inr ()
   \<and> (7::nat) < [1, 2, 8, 9] ! 2"
  using separateCombinationDigits_digits[of 1289] by (simp add: validateCombination_order)

text \<open>
  Claim C7, as the code has it. \<^verbatim>\<open>validateCombination([d0, d1, d2, d3])\<close> succeeds
  exactly when \<open>d1\<close>, \<open>d2\<close>, \<open>d3\<close> are all non-zero and the four digits are pairwise
  distinct (\<open>d0\<close> may be zero). When it fails, the error is the one of the first violated
  check in the order: zero \<open>d1\<close>; \<open>d0 = d1\<close>, \<open>d0 = d2\<close>, \<open>d0 = d3\<close>; zero \<open>d2\<close>;
  \<open>d1 = d2\<close>, \<open>d1 = d3\<close>; zero \<open>d3\<close>; \<open>d2 = d3\<close>. So a zero-digit error implies that
  one of \<open>d1\<close>, \<open>d2\<close>, \<open>d3\<close> is 0, a duplicate-digit error implies that two digits
  are equal, and every failure is one of the two.
\<close>

theorem validateCombination_outcome:
  "(validateCombination [d0, d1, d2, d3] = Inr () \<longleftrightarrow>
      d1 \<noteq> 0 \<and> d2 \<noteq> 0 \<and> d3 \<noteq> 0 \<and> distinct [d0, d1, d2, d3])
   \<and> (validateCombination [d0, d1, d2, d3] = Inl (DigitIsZero n) \<longrightarrow>
        d1 = 0 \<or> d2 = 0 \<or> d3 = 0)
   \<and> (validateCombination [d0, d1, d2, d3] = Inl (DigitNotUnique n) \<longrightarrow>
        \<not> distinct [d0, d1, d2, d3])
   \<and> (validateCombination [d0, d1, d2, d3] \<noteq> Inr () \<longrightarrow>
        (\<exists>k. validateCombination [d0, d1, d2, d3] = Inl (DigitIsZero k)) \<or>
        (\<exists>k. validateCombination [d0, d1, d2, d3] = Inl (DigitNotUnique k)))
   \<and> validateCombination [d0, d1, d2, d3] =
       (if d1 = 0 then Inl (DigitIsZero 2)
        else if d0 = d1 then Inl (DigitNotUnique 2)
        else if d0 = d2 then Inl (DigitNotUnique 3)
        else if d0 = d3 then Inl (DigitNotUnique 4)
        else if d2 = 0 then Inl (DigitIsZero 3)
        else if d1 = d2 then Inl (DigitNotUnique 3)
        else if d1 = d3 then Inl (DigitNotUnique 4)
        else if d3 = 0 then Inl (DigitIsZero 4)
        else if d2 = d3 then Inl (DigitNotUnique 4)
        else Inr ())"
  unfolding validateCombination_order by (auto split: if_splits)

theorem validateCombination_outcome_witness:
  "validateCombination [0, 1, 2, 3] = Inr ()
   \<and> validateCombination [1, 2, 0, 4] = Inl (DigitIsZero 3)
   \<and> validateCombination [1, 2, 3, 1] = Inl (DigitNotUnique 4)"
  using validateCombination_outcome[of 0 1 2 3 0]
        validateCombination_outcome[of 1 2 0 4 3]
        validateCombination_outcome[of 1 2 3 1 4]
  by simp

text \<open>
  The claim as stated fails where both checks are violated: \<open>[1, 1, 0, 2]\<close> has
  \<open>d2 = 0\<close> and fails with the duplicate-digit error, and \<open>[1, 0, 0, 2]\<close> has
  \<open>d1 = d2\<close> and fails with the zero-digit error.
\<close>

theorem validateCombination_first_failure_wins:
  "validateCombination [1, 1, 0, 2] = Inl (DigitNotUnique 2)
   \<and> validateCombination [1, 0, 0, 2] = Inl (DigitIsZero 2)"
  by (simp add: validateCombination_order)

section \<open>The turn word codec\<close>

lemma compressTurn_checks:
  "compressTurnCountMaxAttemptSolved [t, m, s] =
     (if \<not> t < 100 then Inl TurnCountTooLarge
      else if \<not> m < 100 then Inl MaxAttemptTooLarge
      else if \<not> s < 2 then Inl SolvedFlagTooLarge
      else Inr (Field_add (Field_mul t 10000) (Field_add (Field_mul m 100) s)))"
  by (simp add: compressTurnCountMaxAttemptSolved_def)

lemma compressTurn_small:
  assumes "t < 100" "m < 100" "s < 2"
  shows "compressTurnCountMaxAttemptSolved [t, m, s] = Inr (t * 10000 + m * 100 + s)"
proof -
  have "t * 10000 + m * 100 + s < 1000000" using assms by linarith
  moreover have "(1000000::nat) < ORDER" by (simp add: ORDER_def)
  ultimately have b: "t * 10000 + (m * 100 + s) < ORDER" by linarith
  then have "t * 10000 < ORDER" "m * 100 < ORDER" "m * 100 + s < ORDER" by linarith+
  with b assms show ?thesis by (simp add: compressTurn_checks small_field)
qed

lemma turn_digits:
  fixes t m s :: nat
  assumes "m < 100" "s < 2"
  defines "n \<equiv> t * 10000 + m * 100 + s"
  shows "n div 10000 = t" "(n div 100) mod 100 = m" "n mod 100 = s"
proof -
  have a: "n = s + 100 * (m + 100 * t)" by (simp add: n_def)
  have s: "s < 100" using assms(2) by simp
  show "n mod 100 = s" unfolding a by (rule div_mod_step(2)[OF s])
  have b: "n div 100 = m + 100 * t" unfolding a by (rule div_mod_step(1)[OF s])
  show "(n div 100) mod 100 = m" unfolding b by (rule div_mod_step(2)[OF assms(1)])
  have "n div 10000 = (n div 100) div 100" using div_mult2_eq[of n 100 100] by simp
  then show "n div 10000 = t" unfolding b using div_mod_step(1)[OF assms(1)] by simp
qed

lemma separateTurn_small:
  assumes "t < 100" "m < 100" "s < 2"
  shows "separateTurnCountAndMaxAttemptSolved (t * 10000 + m * 100 + s) = Inr [t, m, s]"
proof -
  let ?n = "t * 10000 + m * 100 + s"
  have o: "(100::nat) < ORDER" by (simp add: ORDER_def)
  have d: "?n div 10000 = t" "(?n div 100) mod 100 = m" "?n mod 100 = s"
    using turn_digits[OF assms(2,3), of t] by simp_all
  have f: "Field_of t = t" "Field_of m = m" "Field_of s = s"
    using assms o by (simp_all add: small_field)
  show ?thesis
    unfolding separateTurnCountAndMaxAttemptSolved_def Let_def d f
    by (simp add: compressTurn_small[OF assms])
qed

text \<open>
  Claim C8. \<^verbatim>\<open>compressTurnCountMaxAttemptSolved\<close> fails whenever the turn count is at
  least 100, the maximum of attempts is at least 100, or the solved flag is not 0 or 1;
  when the three bounds hold it returns exactly
  \<open>turnCount * 10000 + maxAttempts * 100 + solvedFlag\<close>, and
  \<^verbatim>\<open>separateTurnCountAndMaxAttemptSolved\<close> applied to that word returns the three values.
\<close>

theorem turn_word_round_trip:
  "(100 \<le> t \<or> 100 \<le> m \<or> 2 \<le> s \<longrightarrow> isl (compressTurnCountMaxAttemptSolved [t, m, s]))
   \<and> (t < 100 \<and> m < 100 \<and> s < 2 \<longrightarrow>
        compressTurnCountMaxAttemptSolved [t, m, s] = Inr (t * 10000 + m * 100 + s)
        \<and> separateTurnCountAndMaxAttemptSolved (t * 10000 + m * 100 + s) = Inr [t, m, s])"
proof (intro conjI impI)
  assume "100 \<le> t \<or> 100 \<le> m \<or> 2 \<le> s"
  then show "isl (compressTurnCountMaxAttemptSolved [t, m, s])"
    by (auto simp: compressTurn_checks)
next
  assume "t < 100 \<and> m < 100 \<and> s < 2"
  then show "compressTurnCountMaxAttemptSolved [t, m, s] = Inr (t * 10000 + m * 100 + s)"
    by (simp add: compressTurn_small)
next
  assume "t < 100 \<and> m < 100 \<and> s < 2"
  then show "separateTurnCountAndMaxAttemptSolved (t * 10000 + m * 100 + s) = Inr [t, m, s]"
    by (simp add: separateTurn_small)
qed

theorem turn_word_round_trip_witness:
  "isl (compressTurnCountMaxAttemptSolved [100, 7, 0])
   \<and> isl (compressTurnCountMaxAttemptSolved [3, 7, 2])
   \<and> compressTurnCountMaxAttemptSolved [3, 7, 1] = Inr 30701
   \<and> separateTurnCountAndMaxAttemptSolved 30701 = Inr [3, 7, 1]"
  using turn_word_round_trip[of 100 7 0] turn_word_round_trip[of 3 7 2]
        turn_word_round_trip[of 3 7 1]
  by simp

section \<open>Bit arrays\<close>

lemma length_bitsOf [simp]: "length (bitsOf n x) = n"
  by (induction n arbitrary: x) simp_all

lemma valueOf_bitsOf: "valueOf (bitsOf n x) = x mod 2 ^ n"
proof (induction n arbitrary: x)
  case 0
  show ?case by simp
next
  case (Suc n)
  have "x mod (2 * 2 ^ n) = 2 * (x div 2 mod 2 ^ n) + x mod 2"
    by (rule mod_mult2_eq)
  then show ?case using Suc by (simp add: odd_iff_mod_2_eq_one)
qed

lemma valueOf_append: "valueOf (xs @ ys) = valueOf xs + 2 ^ length xs * valueOf ys"
  by (induction xs) (simp_all add: algebra_simps)

lemma valueOf_less: "valueOf bs < 2 ^ length bs"
  by (induction bs) auto

lemma bitsOf_add: "bitsOf (m + n) x = bitsOf m x @ bitsOf n (x div 2 ^ m)"
proof (induction m arbitrary: x)
  case 0
  show ?case by simp
next
  case (Suc m)
  have "x div 2 div 2 ^ m = x div (2 * 2 ^ m)" by (simp add: div_mult2_eq)
  then show ?case using Suc by simp
qed

lemma drop_bitsOf: "drop m (bitsOf n x) = bitsOf (n - m) (x div 2 ^ m)"
proof (cases "m \<le> n")
  case True
  then have "bitsOf n x = bitsOf m x @ bitsOf (n - m) (x div 2 ^ m)"
    using bitsOf_add[of m "n - m" x] by simp
  then show ?thesis by simp
next
  case False
  then show ?thesis by simp
qed

lemma take_bitsOf: "take m (bitsOf n x) = bitsOf (min m n) x"
proof (cases "m \<le> n")
  case True
  then have "bitsOf n x = bitsOf m x @ bitsOf (n - m) (x div 2 ^ m)"
    using bitsOf_add[of m "n - m" x] by simp
  then show ?thesis using True by (simp add: min_def)
next
  case False
  then show ?thesis by (simp add: min_def)
qed

lemma slice_bitsOf:
  "slice (bitsOf n x) a b = bitsOf (min (b - a) (n - a)) (x div 2 ^ a)"
  by (simp add: slice_def drop_bitsOf take_bitsOf)

lemma toBits_fits: "len \<le> 254 \<Longrightarrow> x < 2 ^ len \<Longrightarrow> toBits x len = Inr (bitsOf len x)"
  by (simp add: toBits_def)

lemma pow254_less_ORDER: "(2::nat) ^ 254 < ORDER"
  by (simp add: ORDER_def)

lemma fromBits_short:
  assumes "length bs \<le> 254"
  shows "fromBits bs = Inr (valueOf bs)"
proof -
  have "valueOf bs < 2 ^ length bs" by (rule valueOf_less)
  also have "(2::nat) ^ length bs \<le> 2 ^ 254"
    using assms by (intro power_increasing) simp_all
  finally have "valueOf bs < ORDER" using pow254_less_ORDER by linarith
  then show ?thesis using assms by (simp add: fromBits_def)
qed

lemma toBitsAll_fits:
  assumes "\<forall>e\<in>set es. e < 2 ^ w" and "w \<le> 254"
  shows "toBitsAll es w = Inr (map (bitsOf w) es)"
  using assms by (induction es) (simp_all add: toBits_fits)

lemma fromBitsAll_short:
  assumes "\<forall>b\<in>set bs. length b \<le> 254"
  shows "fromBitsAll bs = Inr (map valueOf bs)"
  using assms by (induction bs) (simp_all add: fromBits_short)

lemma length_concat_bitsOf: "length (concat (map (bitsOf w) es)) = length es * w"
  by (induction es) simp_all

section \<open>Packing a sequence\<close>

text \<open>
  The bits of the elements are laid out in sequence order and read little-endian, so the
  first element lands in the lowest bits.
\<close>

lemma valueOf_concat:
  assumes "\<forall>e\<in>set es. e < 2 ^ w"
  shows "valueOf (concat (map (bitsOf w) es)) = (\<Sum>k<length es. es ! k * 2 ^ (w * k))"
  using assms
proof (induction es)
  case Nil
  show ?case by simp
next
  case (Cons e es)
  have e: "e mod 2 ^ w = e" using Cons.prems by simp
  have "(\<Sum>k<length (e # es). (e # es) ! k * 2 ^ (w * k))
        = e + (\<Sum>k<length es. es ! k * 2 ^ (w * Suc k))"
    by (simp add: sum.lessThan_Suc_shift del: sum.lessThan_Suc)
  also have "\<dots> = e + 2 ^ w * (\<Sum>k<length es. es ! k * 2 ^ (w * k))"
    by (simp add: sum_distrib_left power_add mult_ac)
  finally show ?case using Cons by (simp add: valueOf_append valueOf_bitsOf e)
qed

lemma serialize_value:
  assumes "\<forall>e\<in>set es. e < 2 ^ w" and "length es * w \<le> 254"
  shows "serialize es w = Inr (valueOf (concat (map (bitsOf w) es)))"
proof (cases "es = []")
  case True
  then show ?thesis by (simp add: serialize_def fromBits_def)
next
  case False
  then have "w \<le> length es * w" by (cases es) simp_all
  then have w: "w \<le> 254" using assms(2) by linarith
  have "fromBits (concat (map (bitsOf w) es)) = Inr (valueOf (concat (map (bitsOf w) es)))"
    using assms(2) by (intro fromBits_short) (simp add: length_concat_bitsOf)
  then show ?thesis
    using toBitsAll_fits[OF assms(1) w] by (simp add: serialize_def)
qed

lemma packed_less:
  "valueOf (concat (map (bitsOf w) es)) < 2 ^ (length es * w)"
  using valueOf_less[of "concat (map (bitsOf w) es)"] by (simp add: length_concat_bitsOf)

lemma slot_of_packed:
  assumes "\<forall>e\<in>set es. e < 2 ^ w"
  shows "(valueOf (concat (map (bitsOf w) es)) div 2 ^ (j * w)) mod 2 ^ w
           = (if j < length es then es ! j else 0)"
  using assms
proof (induction es arbitrary: j)
  case Nil
  show ?case by simp
next
  case (Cons e es)
  let ?V = "valueOf (concat (map (bitsOf w) es))"
  have e: "e < 2 ^ w" using Cons.prems by simp
  have v: "valueOf (concat (map (bitsOf w) (e # es))) = e + 2 ^ w * ?V"
    using e by (simp add: valueOf_append valueOf_bitsOf)
  show ?case
  proof (cases j)
    case 0
    then show ?thesis unfolding v using div_mod_step(2)[OF e] by simp
  next
    case (Suc j')
    have "(e + 2 ^ w * ?V) div 2 ^ (Suc j' * w) = ((e + 2 ^ w * ?V) div 2 ^ w) div 2 ^ (j' * w)"
      by (simp add: power_add div_mult2_eq)
    also have "\<dots> = ?V div 2 ^ (j' * w)" using div_mod_step(1)[OF e] by simp
    finally show ?thesis unfolding v Suc using Cons by simp
  qed
qed

lemma lessThan2: "{..<2::nat} = {0, 1}"
  by auto

lemma lessThan3: "{..<3::nat} = {0, 1, 2}"
  by auto

text \<open>
  Claim C4, as the code has it. For every sequence of \<open>N\<close> elements each less than
  \<open>2^W\<close> (with \<open>N * W \<le> 254\<close>, so that the aggregate is a field element),
  \<^verbatim>\<open>serialize\<close> produces the aggregate whose least-significant \<open>W\<close>-bit field is the
  first element of the sequence: the sum of \<open>e_k * 2^(W * k)\<close>. Element 0 occupies the
  lowest-order bits of the aggregate.
\<close>

theorem serialize_first_element_lowest:
  assumes "\<forall>e\<in>set es. e < 2 ^ w" and "length es * w \<le> 254"
  shows "serialize es w = Inr (\<Sum>k<length es. es ! k * 2 ^ (w * k))"
  using serialize_value[OF assms] valueOf_concat[OF assms(1)] by simp

theorem serialize_first_element_lowest_witness:
  "serialize [1, 2, 3] 8 = Inr (1 + 2 * 2 ^ 8 + 3 * 2 ^ 16)"
  using serialize_first_element_lowest[of "[1, 2, 3]" 8] by (simp add: lessThan3)

text \<open>
  The claim as stated fails on the sequence \<open>[1, 0]\<close> with \<open>W = 8\<close>: the aggregate is
  1, not \<open>1 * 2^8 + 0 = 256\<close>.
\<close>

theorem serialize_not_most_significant_first:
  "serialize [1, 0] 8 = Inr 1
   \<and> (1::nat) * 2 ^ (8 * (2 - 1 - 0)) + 0 * 2 ^ (8 * (2 - 1 - 1)) = 256"
  using serialize_value[of "[1, 0]" 8] valueOf_concat[of "[1, 0]" 8]
  by (simp add: lessThan2)

section \<open>Unpacking an aggregate\<close>

lemma chunk_count:
  fixes d c :: nat
  assumes "0 < c" "0 < d"
  shows "(d + c - 1) div c = Suc ((d - c + c - 1) div c)"
proof (cases "c \<le> d")
  case True
  define m where "m = d - c + c - 1"
  have "d + c - 1 = m + c" unfolding m_def using True assms by linarith
  then have "(d + c - 1) div c = (m + c) div c" by (rule arg_cong)
  also have "\<dots> = Suc (m div c)" using div_add_self2[of c m] assms(1) by simp
  finally show ?thesis unfolding m_def .
next
  case False
  define m where "m = d - 1"
  have m: "m < c" unfolding m_def using False by linarith
  have "d + c - 1 = m + c" unfolding m_def using assms by linarith
  then have "(d + c - 1) div c = (m + c) div c" by (rule arg_cong)
  also have "\<dots> = Suc (m div c)" using div_add_self2[of c m] assms(1) by simp
  also have "m div c = 0" using m by simp
  finally have l: "(d + c - 1) div c = Suc 0" .
  have "d - c + c - 1 = c - 1" using False by simp
  moreover have "(c - 1) div c = 0" using assms by simp
  ultimately have "(d - c + c - 1) div c = 0" by (rule ssubst)
  then show ?thesis using l by (rule ssubst)
qed

text \<open>
  With a positive chunk size the loop of \<^verbatim>\<open>deserialize\<close> returns, and it returns the
  slices of \<open>chunkSize\<close> bits in order.
\<close>

lemma sliceLoop_chunks:
  assumes "0 < c"
  shows "sliceLoop bits c i acc =
    Some (acc @ map (\<lambda>k. slice bits (i + k * c) (i + k * c + c))
                  [0..<(length bits - i + c - 1) div c])"
proof (induction "length bits - i" arbitrary: i acc rule: less_induct)
  case less
  show ?case
  proof (cases "i < length bits")
    case False
    then have "(length bits - i + c - 1) div c = 0" using assms by simp
    then show ?thesis using False by (subst sliceLoop.simps) simp
  next
    case True
    have lt: "length bits - (i + c) < length bits - i" using True assms by linarith
    have n: "(length bits - i + c - 1) div c = Suc ((length bits - (i + c) + c - 1) div c)"
      using chunk_count[OF assms, of "length bits - i"] True by simp
    have "sliceLoop bits c i acc =
            sliceLoop bits c (i + c) (acc @ [slice bits i (i + c)])"
      using True by (subst sliceLoop.simps) simp
    also have "\<dots> = Some ((acc @ [slice bits i (i + c)]) @
        map (\<lambda>k. slice bits (i + c + k * c) (i + c + k * c + c))
            [0..<(length bits - (i + c) + c - 1) div c])"
      by (rule less.hyps[OF lt])
    finally show ?thesis unfolding n map_upt_Suc by (simp add: add_ac)
  qed
qed

lemma deserialize_slots:
  assumes "sz \<le> 254" "x < 2 ^ sz" "0 < c"
  shows "deserialize x sz c =
    Some (Inr (map (\<lambda>k. (x div 2 ^ (k * c)) mod 2 ^ min c (sz - k * c))
                 [0..<(sz + c - 1) div c]))"
proof -
  let ?chunks = "map (\<lambda>k. slice (bitsOf sz x) (0 + k * c) (0 + k * c + c))
                   [0..<(length (bitsOf sz x) - 0 + c - 1) div c]"
  have s: "sliceLoop (bitsOf sz x) c 0 [] = Some ([] @ ?chunks)"
    by (rule sliceLoop_chunks[OF assms(3)])
  have ch: "?chunks = map (\<lambda>k. bitsOf (min c (sz - k * c)) (x div 2 ^ (k * c)))
                   [0..<(sz + c - 1) div c]"
    by (simp add: slice_bitsOf)
  have "\<forall>b\<in>set ?chunks. length b \<le> 254" unfolding ch using assms(1) by auto
  then have "fromBitsAll ?chunks = Inr (map valueOf ?chunks)" by (rule fromBitsAll_short)
  also have "map valueOf ?chunks =
     map (\<lambda>k. (x div 2 ^ (k * c)) mod 2 ^ min c (sz - k * c)) [0..<(sz + c - 1) div c]"
    unfolding ch by (simp add: valueOf_bitsOf)
  finally show ?thesis using s assms by (simp add: deserialize_def toBits_fits)
qed

lemma deserialize_exact:
  assumes "n * c \<le> 254" "x < 2 ^ (n * c)" "0 < c"
  shows "deserialize x (n * c) c = Some (Inr (map (\<lambda>k. x div 2 ^ (k * c) mod 2 ^ c) [0..<n]))"
proof -
  have "n * c = c * n" by (rule mult.commute)
  then have "n * c + c - 1 = (c - 1) + c * n" using assms(3) by linarith
  then have "(n * c + c - 1) div c = ((c - 1) + c * n) div c" by (rule arg_cong)
  also have "\<dots> = n" using assms(3) by (intro div_mod_step(1)) simp
  finally have cnt: "(n * c + c - 1) div c = n" .
  have "map (\<lambda>k. (x div 2 ^ (k * c)) mod 2 ^ min c (n * c - k * c)) [0..<n]
      = map (\<lambda>k. x div 2 ^ (k * c) mod 2 ^ c) [0..<n]"
  proof (rule map_cong[OF refl])
    fix k assume "k \<in> set [0..<n]"
    then have "Suc k \<le> n" by simp
    then have "Suc k * c \<le> n * c" by (rule mult_le_mono1)
    then have "min c (n * c - k * c) = c" by simp
    then show "x div 2 ^ (k * c) mod 2 ^ min c (n * c - k * c) = x div 2 ^ (k * c) mod 2 ^ c"
      by simp
  qed
  then show ?thesis using deserialize_slots[OF assms] cnt by simp
qed

lemma padded_slots:
  "map (\<lambda>k. if k < length es then es ! k else (0::nat)) [0..<length es + m] = es @ replicate m 0"
  by (rule nth_equalityI) (auto simp: nth_append)

lemma history_round_trip:
  assumes "\<forall>e\<in>set es. e < 2 ^ w" and "(length es + m) * w \<le> 254" and "0 < w"
  shows "\<exists>v. serialize es w = Inr v \<and> v < 2 ^ (length es * w)
           \<and> deserialize v ((length es + m) * w) w = Some (Inr (es @ replicate m 0))"
proof -
  let ?v = "valueOf (concat (map (bitsOf w) es))"
  have "length es * w \<le> (length es + m) * w" by simp
  then have l: "length es * w \<le> 254" using assms(2) by linarith
  have s: "serialize es w = Inr ?v" by (rule serialize_value[OF assms(1) l])
  have b: "?v < 2 ^ (length es * w)" by (rule packed_less)
  also have "(2::nat) ^ (length es * w) \<le> 2 ^ ((length es + m) * w)"
    by (intro power_increasing) simp_all
  finally have b': "?v < 2 ^ ((length es + m) * w)" .
  have "deserialize ?v ((length es + m) * w) w
      = Some (Inr (map (\<lambda>k. ?v div 2 ^ (k * w) mod 2 ^ w) [0..<length es + m]))"
    by (rule deserialize_exact[OF assms(2) b' assms(3)])
  also have "map (\<lambda>k. ?v div 2 ^ (k * w) mod 2 ^ w) [0..<length es + m]
      = map (\<lambda>k. if k < length es then es ! k else 0) [0..<length es + m]"
    by (simp add: slot_of_packed[OF assms(1)])
  finally show ?thesis using s b by (simp add: padded_slots)
qed

lemma upt15: "[0..<15] = [0, 1, 2, 3, 4, 5, 6, 7, 8, 9, 10, 11, 12, 13, 14]"
  by (simp add: upt_conv_Cons)

lemma replicate8: "replicate 8 x = [x, x, x, x, x, x, x, x]"
  by (simp add: numeral_eq_Suc)

text \<open>
  Claim C2, as the code has it. A history of \<open>MAX_ATTEMPTS = 7\<close> slots of 14 bits
  (guesses) or 8 bits (clues) is packed into one aggregate integer that fits in
  \<open>7 * 14 = 98\<close> bits, respectively \<open>7 * 8 = 56\<close> bits. Deserialization does not read
  \<open>MAX_ATTEMPTS\<close> slots: \<^verbatim>\<open>deserializeCombinationHistory\<close> reads 210 bits and
  \<^verbatim>\<open>deserializeClueHistory\<close> reads 120 bits, so each yields exactly 15 slots (slot \<open>k\<close>
  is the \<open>k\<close>-th field of 14, respectively 8, bits counted from the lowest); on a packed
  history of 7 slots these are the 7 slots followed by 8 zero slots.
\<close>

theorem history_slots:
  "(length cs = MAX_ATTEMPTS \<and> (\<forall>c\<in>set cs. c < 2 ^ 14) \<longrightarrow>
      (\<exists>v. serializeCombinationHistory cs = Inr v \<and> v < 2 ^ (MAX_ATTEMPTS * 14)
           \<and> deserializeCombinationHistory v = Some (Inr (cs @ replicate 8 0))))
   \<and> (length cl = MAX_ATTEMPTS \<and> (\<forall>c\<in>set cl. c < 2 ^ 8) \<longrightarrow>
      (\<exists>v. serializeClueHistory cl = Inr v \<and> v < 2 ^ (MAX_ATTEMPTS * 8)
           \<and> deserializeClueHistory v = Some (Inr (cl @ replicate 8 0))))
   \<and> (x < 2 ^ 210 \<longrightarrow> deserializeCombinationHistory x =
         Some (Inr (map (\<lambda>k. x div 2 ^ (k * 14) mod 2 ^ 14) [0..<15])))
   \<and> (y < 2 ^ 120 \<longrightarrow> deserializeClueHistory y =
         Some (Inr (map (\<lambda>k. y div 2 ^ (k * 8) mod 2 ^ 8) [0..<15])))"
proof (intro conjI impI)
  assume "length cs = MAX_ATTEMPTS \<and> (\<forall>c\<in>set cs. c < 2 ^ 14)"
  then have l: "length cs = 7" and b: "\<forall>c\<in>set cs. c < 2 ^ 14"
    by (simp_all add: MAX_ATTEMPTS_def)
  have "(length cs + 8) * 14 \<le> 254" using l by simp
  from history_round_trip[OF b this] l
  show "\<exists>v. serializeCombinationHistory cs = Inr v \<and> v < 2 ^ (MAX_ATTEMPTS * 14)
           \<and> deserializeCombinationHistory v = Some (Inr (cs @ replicate 8 0))"
    by (simp add: serializeCombinationHistory_def deserializeCombinationHistory_def
          MAX_ATTEMPTS_def)
next
  assume "length cl = MAX_ATTEMPTS \<and> (\<forall>c\<in>set cl. c < 2 ^ 8)"
  then have l: "length cl = 7" and b: "\<forall>c\<in>set cl. c < 2 ^ 8"
    by (simp_all add: MAX_ATTEMPTS_def)
  have "(length cl + 8) * 8 \<le> 254" using l by simp
  from history_round_trip[OF b this] l
  show "\<exists>v. serializeClueHistory cl = Inr v \<and> v < 2 ^ (MAX_ATTEMPTS * 8)
           \<and> deserializeClueHistory v = Some (Inr (cl @ replicate 8 0))"
    by (simp add: serializeClueHistory_def deserializeClueHistory_def MAX_ATTEMPTS_def)
next
  assume "x < 2 ^ 210"
  then show "deserializeCombinationHistory x =
         Some (Inr (map (\<lambda>k. x div 2 ^ (k * 14) mod 2 ^ 14) [0..<15]))"
    using deserialize_exact[of 15 14 x] by (simp add: deserializeCombinationHistory_def)
next
  assume "y < 2 ^ 120"
  then show "deserializeClueHistory y =
         Some (Inr (map (\<lambda>k. y div 2 ^ (k * 8) mod 2 ^ 8) [0..<15]))"
    using deserialize_exact[of 15 8 y] by (simp add: deserializeClueHistory_def)
qed

theorem history_slots_witness:
  "(\<exists>v. serializeCombinationHistory [1234, 5678, 1357, 2468, 8765, 4321, 9876] = Inr v
        \<and> v < 2 ^ 98
        \<and> deserializeCombinationHistory v
            = Some (Inr [1234, 5678, 1357, 2468, 8765, 4321, 9876, 0, 0, 0, 0, 0, 0, 0, 0]))
   \<and> (\<exists>v. serializeClueHistory [170, 1, 2, 4, 8, 16, 32] = Inr v
        \<and> v < 2 ^ 56
        \<and> deserializeClueHistory v = Some (Inr [170, 1, 2, 4, 8, 16, 32, 0, 0, 0, 0, 0, 0, 0, 0]))
   \<and> deserializeCombinationHistory 1234 = Some (Inr [1234, 0, 0, 0, 0, 0, 0, 0, 0, 0, 0, 0, 0, 0, 0])
   \<and> deserializeClueHistory 170 = Some (Inr [170, 0, 0, 0, 0, 0, 0, 0, 0, 0, 0, 0, 0, 0, 0])"
  using history_slots[of "[1234, 5678, 1357, 2468, 8765, 4321, 9876]"
                         "[170, 1, 2, 4, 8, 16, 32]" 1234 170]
  by (simp add: MAX_ATTEMPTS_def upt15 replicate8)

text \<open>
  The claim as stated fails on the aggregates 1234 (one guess) and 170 (one clue):
  deserializing them yields 15 slots, not \<open>MAX_ATTEMPTS = 7\<close>.
\<close>

theorem history_has_15_slots:
  "deserializeCombinationHistory 1234 = Some (Inr [1234, 0, 0, 0, 0, 0, 0, 0, 0, 0, 0, 0, 0, 0, 0])
   \<and> deserializeClueHistory 170 = Some (Inr [170, 0, 0, 0, 0, 0, 0, 0, 0, 0, 0, 0, 0, 0, 0])
   \<and> MAX_ATTEMPTS = 7"
  using deserialize_exact[of 15 14 1234] deserialize_exact[of 15 8 170]
  by (simp add: deserializeCombinationHistory_def deserializeClueHistory_def MAX_ATTEMPTS_def upt15)

section \<open>Clues in two bits per score\<close>

lemma clue_round_trip:
  assumes "a < 4" "b < 4" "c < 4" "d < 4"
  shows "andThen (serializeClue [a, b, c, d]) deserializeClue = Inr [a, b, c, d]"
proof -
  define v where "v = valueOf (concat (map (bitsOf 2) [a, b, c, d]))"
  have fit: "\<forall>e\<in>set [a, b, c, d]. e < 2 ^ 2" using assms by simp
  have "serialize [a, b, c, d] 2 = Inr v" unfolding v_def
    by (rule serialize_value[OF fit]) simp
  then have s: "serializeClue [a, b, c, d] = Inr v"
    by (simp add: serializeClue_def serialize_def)
  have "v < 2 ^ (length [a, b, c, d] * 2)" unfolding v_def by (rule packed_less)
  then have "v < 2 ^ 8" by simp
  then have tb: "toBits v 8 = Inr (bitsOf 8 v)" by (intro toBits_fits) simp_all
  have sl: "slice (bitsOf 8 v) 0 2 = bitsOf 2 (v div 2 ^ (0 * 2))"
    "slice (bitsOf 8 v) 2 4 = bitsOf 2 (v div 2 ^ (1 * 2))"
    "slice (bitsOf 8 v) 4 6 = bitsOf 2 (v div 2 ^ (2 * 2))"
    "slice (bitsOf 8 v) 6 8 = bitsOf 2 (v div 2 ^ (3 * 2))"
    by (simp_all add: slice_bitsOf)
  have fb: "\<And>y. fromBits (bitsOf 2 y) = Inr (y mod 2 ^ 2)"
    by (simp add: fromBits_short valueOf_bitsOf)
  have d: "deserializeClue v = Inr [v div 2 ^ (0 * 2) mod 2 ^ 2, v div 2 ^ (1 * 2) mod 2 ^ 2,
        v div 2 ^ (2 * 2) mod 2 ^ 2, v div 2 ^ (3 * 2) mod 2 ^ 2]"
    by (simp only: deserializeClue_def tb andThen_simps sl fb)
  have "andThen (serializeClue [a, b, c, d]) deserializeClue = deserializeClue v"
    by (simp only: s andThen_simps)
  also note d
  finally show ?thesis unfolding v_def slot_of_packed[OF fit] by simp
qed

lemma distinct_rows_le2:
  assumes "distinct [s0, s1, s2, s3 :: nat]"
  shows "2 * toField (g = s0) + toField (g = s1) + toField (g = s2) + toField (g = s3) \<le> 2"
    and "toField (g = s0) + 2 * toField (g = s1) + toField (g = s2) + toField (g = s3) \<le> 2"
    and "toField (g = s0) + toField (g = s1) + 2 * toField (g = s2) + toField (g = s3) \<le> 2"
    and "toField (g = s0) + toField (g = s1) + toField (g = s2) + 2 * toField (g = s3) \<le> 2"
  using assms by (auto simp: toField_def)

text \<open>
  Claim C10. For every solution whose four digits are pairwise distinct and every guess
  of 4 digits, each element of the clue of \<^verbatim>\<open>getClueFromGuess\<close> is at most 2, and the
  serialization in two bits per element loses nothing:
  \<^verbatim>\<open>deserializeClue(serializeClue(clue))\<close> is the clue. Without distinctness a clue
  element can exceed 3 (the solution \<open>[1, 1, 1, 1]\<close> scores the guess \<open>[1, 1, 1, 1]\<close> as
  \<open>[5, 5, 5, 5]\<close>) and the serialization fails.
\<close>

theorem clue_fits_two_bits:
  "(length guess = 4 \<and> length solution = 4 \<and> distinct solution \<longrightarrow>
      (\<exists>clue. getClueFromGuess guess solution = Inr clue \<and> length clue = 4
          \<and> (\<forall>i<4. clue ! i \<le> 2)
          \<and> andThen (serializeClue clue) deserializeClue = Inr clue))
   \<and> getClueFromGuess [1, 1, 1, 1] [1, 1, 1, 1] = Inr [5, 5, 5, 5]
   \<and> serializeClue [5, 5, 5, 5] = Inl DoesNotFit"
proof (intro conjI impI)
  assume "length guess = 4 \<and> length solution = 4 \<and> distinct solution"
  then have lg: "length guess = 4" and ls: "length solution = 4" and di: "distinct solution"
    by simp_all
  obtain g0 g1 g2 g3 where g: "guess = [g0, g1, g2, g3]" using length4[OF lg] by blast
  obtain s0 s1 s2 s3 where s: "solution = [s0, s1, s2, s3]" using length4[OF ls] by blast
  define r0 where
    "r0 = 2 * toField (g0 = s0) + toField (g0 = s1) + toField (g0 = s2) + toField (g0 = s3)"
  define r1 where
    "r1 = toField (g1 = s0) + 2 * toField (g1 = s1) + toField (g1 = s2) + toField (g1 = s3)"
  define r2 where
    "r2 = toField (g2 = s0) + toField (g2 = s1) + 2 * toField (g2 = s2) + toField (g2 = s3)"
  define r3 where
    "r3 = toField (g3 = s0) + toField (g3 = s1) + toField (g3 = s2) + 2 * toField (g3 = s3)"
  have c: "getClueFromGuess guess solution = Inr [r0, r1, r2, r3]"
    unfolding g s r0_def r1_def r2_def r3_def by (rule getClueFromGuess_rows)
  have le: "r0 \<le> 2" "r1 \<le> 2" "r2 \<le> 2" "r3 \<le> 2"
    unfolding r0_def r1_def r2_def r3_def
    using distinct_rows_le2[OF di[unfolded s]] by simp_all
  then have rt: "andThen (serializeClue [r0, r1, r2, r3]) deserializeClue = Inr [r0, r1, r2, r3]"
    by (intro clue_round_trip) simp_all
  have "\<forall>i<4. [r0, r1, r2, r3] ! i \<le> 2"
    using all4[of "\<lambda>x. x \<le> 2" r0 r1 r2 r3] le by simp
  with c rt show "\<exists>clue. getClueFromGuess guess solution = Inr clue \<and> length clue = 4
          \<and> (\<forall>i<4. clue ! i \<le> 2)
          \<and> andThen (serializeClue clue) deserializeClue = Inr clue"
    by simp
next
  show "getClueFromGuess [1, 1, 1, 1] [1, 1, 1, 1] = Inr [5, 5, 5, 5]"
    by (simp add: getClueFromGuess_rows toField_def)
next
  show "serializeClue [5, 5, 5, 5] = Inl DoesNotFit"
    by (simp add: serializeClue_def toBits_def)
qed

theorem clue_fits_two_bits_witness:
  "getClueFromGuess [5, 7, 2, 6] [5, 6, 3, 4] = Inr [2, 0, 0, 1]
   \<and> andThen (serializeClue [2, 0, 0, 1]) deserializeClue = Inr [2, 0, 0, 1]"
  using clue_fits_two_bits[of "[5, 7, 2, 6]" "[5, 6, 3, 4]"]
  by (simp add: getClueFromGuess_rows toField_def)

section \<open>Reading and writing one slot\<close>

lemma getLoop_append:
  "getLoop arr idx (xs @ ys) (t, s) = getLoop arr idx ys (getLoop arr idx xs (t, s))"
  by (induction xs arbitrary: t s) (simp_all add: Let_def)

lemma one_less_ORDER: "1 < ORDER"
  by (simp add: ORDER_def)

lemma getLoop_scan:
  assumes "n \<le> ORDER"
  shows "getLoop arr idx [0..<n] (0, 0) = (if idx < n then (1, arr ! idx mod ORDER) else (0, 0))"
  using assms
proof (induction n)
  case 0
  show ?case by simp
next
  case (Suc n)
  then have ih: "getLoop arr idx [0..<n] (0, 0)
                   = (if idx < n then (1, arr ! idx mod ORDER) else (0, 0))"
    and n: "n < ORDER" by simp_all
  have f: "Field_of n = n" using n by (simp add: Field_of_def)
  have "getLoop arr idx [0..<Suc n] (0, 0) = getLoop arr idx [n] (getLoop arr idx [0..<n] (0, 0))"
    by (simp add: getLoop_append)
  also have "\<dots> = (if idx < Suc n then (1, arr ! idx mod ORDER) else (0, 0))"
    unfolding ih using one_less_ORDER
    by (auto simp: Let_def f toField_def Field_add_def Field_mul_def less_Suc_eq)
  finally show ?case .
qed

lemma getElementAtIndex_nth:
  assumes "length arr \<le> ORDER"
  shows "getElementAtIndex arr idx =
           (if idx < length arr then Inr (arr ! idx mod ORDER) else Inl InvalidIndex)"
  by (simp add: getElementAtIndex_def getLoop_scan[OF assms])

lemma updateLoop_map:
  "updateLoop nv arr idx xs acc = acc @ map (\<lambda>i. if idx = Field_of i then nv else arr ! i) xs"
  by (induction xs arbitrary: acc) simp_all

lemma updateElementAtIndex_list_update:
  assumes "length arr < ORDER"
  shows "updateElementAtIndex nv arr idx =
           (if idx < length arr then Inr (arr[idx := nv]) else Inl IndexOutOfBounds)"
proof -
  have l: "Field_of (length arr) = length arr" using assms by (simp add: Field_of_def)
  have "map (\<lambda>i. if idx = Field_of i then nv else arr ! i) [0..<length arr] = arr[idx := nv]"
  proof (rule nth_equalityI)
    show "length (map (\<lambda>i. if idx = Field_of i then nv else arr ! i) [0..<length arr])
            = length (arr[idx := nv])" by simp
  next
    fix i assume "i < length (map (\<lambda>i. if idx = Field_of i then nv else arr ! i) [0..<length arr])"
    then have i: "i < length arr" by simp
    then have "Field_of i = i" using assms by (simp add: Field_of_def)
    then show "map (\<lambda>i. if idx = Field_of i then nv else arr ! i) [0..<length arr] ! i
                 = arr[idx := nv] ! i"
      using i by (auto simp: nth_list_update)
  qed
  then show ?thesis by (simp add: updateElementAtIndex_def updateLoop_map l)
qed

text \<open>
  Claim C6. For every array of \<open>N\<close> field elements (an array is shorter than the field
  order), every index \<open>i < N\<close> and every new field element \<open>x\<close>: writing \<open>x\<close> at \<open>i\<close>
  succeeds, reading index \<open>i\<close> afterwards returns \<open>x\<close>, and reading any other index
  \<open>j\<close> afterwards gives what reading \<open>j\<close> gave before the write. With an index
  \<open>i \<ge> N\<close> both operations fail.
\<close>

theorem read_after_write:
  assumes "length arr < ORDER" and "x < ORDER"
  shows "(i < length arr \<longrightarrow>
            updateElementAtIndex x arr i = Inr (arr[i := x])
          \<and> getElementAtIndex (arr[i := x]) i = Inr x
          \<and> (\<forall>j. j \<noteq> i \<longrightarrow> getElementAtIndex (arr[i := x]) j = getElementAtIndex arr j))
       \<and> (length arr \<le> i \<longrightarrow>
            getElementAtIndex arr i = Inl InvalidIndex
          \<and> updateElementAtIndex x arr i = Inl IndexOutOfBounds)"
proof -
  have le: "length arr \<le> ORDER" "length (arr[i := x]) \<le> ORDER" using assms(1) by simp_all
  show ?thesis
    using assms(2)
    by (simp add: updateElementAtIndex_list_update[OF assms(1)]
          getElementAtIndex_nth[OF le(1)] getElementAtIndex_nth[OF le(2)])
qed

theorem read_after_write_witness:
  "updateElementAtIndex 99 [10, 20, 30] 1 = Inr [10, 99, 30]
   \<and> getElementAtIndex [10, 99, 30] 1 = Inr 99
   \<and> getElementAtIndex [10, 99, 30] 2 = Inr 30
   \<and> getElementAtIndex [10, 20, 30] 2 = Inr 30
   \<and> getElementAtIndex [10, 20, 30] 3 = Inl InvalidIndex
   \<and> updateElementAtIndex 99 [10, 20, 30] 3 = Inl IndexOutOfBounds"
proof -
  have a: "length [10, 20, 30 :: nat] < ORDER" "(99::nat) < ORDER" by (simp_all add: ORDER_def)
  have g: "getElementAtIndex [10, 20, 30] 2 = Inr 30"
    using getElementAtIndex_nth[of "[10, 20, 30]" 2] a(1) by (simp add: ORDER_def)
  show ?thesis
    using read_after_write[OF a, of 1] read_after_write[OF a, of 3] g by simp
qed

end
